theory Spec2Isabelle
  imports Main
begin

section \<open>The Gomoku game component (src/components/App.jsx)\<close>

text \<open>
  The component keeps its game state in React state variables and changes it only
  through the handlers \<open>initializeBoard\<close>, \<open>handleCellClick\<close>, \<open>handleUndo\<close>,
  \<open>handlePauseResume\<close> and \<open>handleNewGame\<close>. Each handler is modelled as a function
  from the state of the render in which it was created to the state after the
  handler has run. The modal dialog and the timed error banner are presentation
  only; the banner text a handler sets is kept as the handler's outcome.
\<close>

subsection \<open>Constants and data\<close>

abbreviation BOARD_SIZE :: int where
  "BOARD_SIZE \<equiv> 15"

text \<open>\<open>GAME_STATUS\<close>: the five status strings.\<close>

datatype status = PLAYING | PAUSED | BLACK_WIN | WHITE_WIN | DRAW

text \<open>\<open>PIECE_TYPE\<close>: 0, 1 and 2; the code only ever compares them with \<open>===\<close>.\<close>

datatype piece = EMPTY | BLACK | WHITE

text \<open>
  A JavaScript array element is a value or \<open>undefined\<close> (\<open>None\<close>). The board is an
  array of rows.
\<close>

type_synonym cells = "piece option list"
type_synonym grid = "cells list"

text \<open>An entry of \<open>moveHistory\<close>: the object \<open>{ row, col, player }\<close>.\<close>

record move =
  row :: int
  col :: int
  player :: piece

record game =
  board :: grid
  currentPlayer :: piece
  gameStatus :: status
  moveHistory :: "move list"
  lastMove :: "(int \<times> int) option"

text \<open>
  What a handler reports. The three banners are the strings passed to
  \<open>setErrorMessage\<close>: "the game is over, start a new game" in \<open>handleCellClick\<close>
  when the status is not playing, "this position already holds a stone", and
  "there is no move to take back". A handler can also end by an exception.
\<close>

datatype notice = GameNotInProgress | CellOccupied | NothingToUndo

datatype js_error = TypeError

datatype outcome = Accepted | Rejected notice | Threw js_error

subsection \<open>Array reads and writes as JavaScript performs them\<close>

text \<open>\<open>xs[i]\<close>: the element, or \<open>undefined\<close> when \<open>i\<close> is not an index of \<open>xs\<close>.\<close>

definition js_index :: "'a list \<Rightarrow> int \<Rightarrow> 'a option" where
  "js_index xs i = (if 0 \<le> i \<and> i < int (length xs) then Some (xs ! nat i) else None)"

text \<open>
  \<open>board[r][c]\<close>: when \<open>board[r]\<close> is \<open>undefined\<close> the second lookup throws a
  TypeError; otherwise the result is the cell, or \<open>undefined\<close> outside the row.
\<close>

definition board_get :: "grid \<Rightarrow> int \<Rightarrow> int \<Rightarrow> js_error + piece option" where
  "board_get b r c =
     (case js_index b r of
        None \<Rightarrow> Inl TypeError
      | Some cs \<Rightarrow> Inr (case js_index cs c of None \<Rightarrow> None | Some v \<Rightarrow> v))"

text \<open>
  \<open>cs[c] = v\<close>: an index inside the array is overwritten, an index past the end
  extends the array with holes (which read as \<open>undefined\<close>). A negative \<open>c\<close> makes a
  named property and leaves every element and the length as they are; the
  property itself is not kept in the model (no accepted click records a move
  with a negative column).
\<close>

definition js_assign :: "cells \<Rightarrow> int \<Rightarrow> piece \<Rightarrow> cells" where
  "js_assign cs c v =
     (if c < 0 then cs
      else if c < int (length cs) then cs[nat c := Some v]
      else cs @ replicate (nat c - length cs) None @ [Some v])"

text \<open>\<open>newBoard[r][c] = v\<close>: throws a TypeError when \<open>newBoard[r]\<close> is \<open>undefined\<close>.\<close>

definition board_set :: "grid \<Rightarrow> int \<Rightarrow> int \<Rightarrow> piece \<Rightarrow> js_error + grid" where
  "board_set b r c v =
     (case js_index b r of
        None \<Rightarrow> Inl TypeError
      | Some cs \<Rightarrow> Inr (b[nat r := js_assign cs c v]))"

subsection \<open>initializeBoard\<close>

text \<open>\<open>Array(BOARD_SIZE).fill(null).map(() => Array(BOARD_SIZE).fill(EMPTY))\<close>\<close>

definition emptyBoard :: grid where
  "emptyBoard = replicate (nat BOARD_SIZE) (replicate (nat BOARD_SIZE) (Some EMPTY))"

definition initializeBoard :: game where
  "initializeBoard =
     \<lparr>board = emptyBoard, currentPlayer = BLACK, gameStatus = PLAYING,
      moveHistory = [], lastMove = None\<rparr>"

subsection \<open>checkWin\<close>

definition directions :: "(int \<times> int) list" where
  "directions = [(0, 1), (1, 0), (1, 1), (1, -1)]"

text \<open>
  One inner loop \<open>for (let i = 1; i < 5; i++)\<close> with its \<open>count++\<close> and \<open>break\<close>.
  The second loop of the source reads \<open>row - i * dx\<close>, that is this loop run
  with the direction negated.
\<close>

function scan :: "grid \<Rightarrow> piece \<Rightarrow> int \<Rightarrow> int \<Rightarrow> int \<Rightarrow> int \<Rightarrow> int \<Rightarrow> nat \<Rightarrow> js_error + nat" where
  "scan b p r c dx dy i count =
     (if i < 5 then
        (let newRow = r + i * dx; newCol = c + i * dy in
         if newRow \<ge> 0 \<and> newRow < BOARD_SIZE \<and> newCol \<ge> 0 \<and> newCol < BOARD_SIZE then
           (case board_get b newRow newCol of
              Inl e \<Rightarrow> Inl e
            | Inr v \<Rightarrow> if v = Some p then scan b p r c dx dy (i + 1) (count + 1)
                       else Inr count)
         else Inr count)
      else Inr count)"
  by pat_completeness auto
termination
  by (relation "measure (\<lambda>(b, p, r, c, dx, dy, i, count). nat (5 - i))") auto

declare scan.simps [simp del]

text \<open>The loop over the directions, returning at the first count of five or more.\<close>

fun checkWin_dirs :: "grid \<Rightarrow> int \<Rightarrow> int \<Rightarrow> piece \<Rightarrow> (int \<times> int) list \<Rightarrow> js_error + bool" where
  "checkWin_dirs b r c p [] = Inr False"
| "checkWin_dirs b r c p ((dx, dy) # ds) =
     (case scan b p r c dx dy 1 1 of
        Inl e \<Rightarrow> Inl e
      | Inr count1 \<Rightarrow>
          (case scan b p r c (- dx) (- dy) 1 count1 of
             Inl e \<Rightarrow> Inl e
           | Inr count \<Rightarrow> if count \<ge> 5 then Inr True else checkWin_dirs b r c p ds))"

definition checkWin :: "grid \<Rightarrow> int \<Rightarrow> int \<Rightarrow> piece \<Rightarrow> js_error + bool" where
  "checkWin b r c p = checkWin_dirs b r c p directions"

subsection \<open>checkDraw\<close>

text \<open>The two nested loops over \<open>i\<close> and \<open>j\<close>, returning false at the first empty cell.\<close>

function checkDraw_from :: "grid \<Rightarrow> int \<Rightarrow> int \<Rightarrow> js_error + bool" where
  "checkDraw_from b i j =
     (if i < BOARD_SIZE then
        (if j < BOARD_SIZE then
           (case board_get b i j of
              Inl e \<Rightarrow> Inl e
            | Inr v \<Rightarrow> if v = Some EMPTY then Inr False else checkDraw_from b i (j + 1))
         else checkDraw_from b (i + 1) 0)
      else Inr True)"
  by pat_completeness auto
termination
  by (relation "measures [\<lambda>(b, i, j). nat (BOARD_SIZE - i),
                          \<lambda>(b, i, j). nat (BOARD_SIZE + 1 - j)]") auto

declare checkDraw_from.simps [simp del]

definition checkDraw :: "grid \<Rightarrow> js_error + bool" where
  "checkDraw b = checkDraw_from b 0 0"

subsection \<open>handleCellClick\<close>

text \<open>
  \<open>checkWin\<close> and \<open>checkDraw\<close> are callbacks created in the same render as the
  handler, so the \<open>board\<close> they read is the state variable of that render:
  \<open>setBoard(newBoard)\<close> schedules the next render and does not change it. Both
  are therefore applied to \<open>board s\<close>, the board before the stone is placed.

  An exception at \<open>board[row][col]\<close> is raised before any setter is called. The
  copy \<open>board.map(row => [...row])\<close> has the same elements as \<open>board\<close>. An
  exception inside \<open>checkWin\<close> or \<open>checkDraw\<close> comes after \<open>setBoard\<close>,
  \<open>setMoveHistory\<close> and \<open>setLastMove\<close>, whose updates are already queued.
\<close>

definition handleCellClick :: "game \<Rightarrow> int \<Rightarrow> int \<Rightarrow> outcome \<times> game" where
  "handleCellClick s r c =
     (if gameStatus s \<noteq> PLAYING then (Rejected GameNotInProgress, s)
      else
        (case board_get (board s) r c of
           Inl e \<Rightarrow> (Threw e, s)
         | Inr v \<Rightarrow>
             if v \<noteq> Some EMPTY then (Rejected CellOccupied, s)
             else
               (case board_set (board s) r c (currentPlayer s) of
                  Inl e \<Rightarrow> (Threw e, s)
                | Inr newBoard \<Rightarrow>
                    (let newMoveHistory =
                           moveHistory s @ [\<lparr>row = r, col = c, player = currentPlayer s\<rparr>];
                         s1 = s\<lparr>board := newBoard, moveHistory := newMoveHistory,
                                lastMove := Some (r, c)\<rparr>
                     in (case checkWin (board s) r c (currentPlayer s) of
                           Inl e \<Rightarrow> (Threw e, s1)
                         | Inr True \<Rightarrow>
                             (Accepted,
                              s1\<lparr>gameStatus :=
                                   (if currentPlayer s = BLACK then BLACK_WIN
                                    else WHITE_WIN)\<rparr>)
                         | Inr False \<Rightarrow>
                             (case checkDraw (board s) of
                                Inl e \<Rightarrow> (Threw e, s1)
                              | Inr True \<Rightarrow> (Accepted, s1\<lparr>gameStatus := DRAW\<rparr>)
                              | Inr False \<Rightarrow>
                                  (Accepted,
                                   s1\<lparr>currentPlayer :=
                                        (if currentPlayer s = BLACK then WHITE
                                         else BLACK)\<rparr>)))))))"

subsection \<open>handleUndo\<close>

text \<open>\<open>newMoveHistory.forEach(move => { newBoard[move.row][move.col] = move.player })\<close>\<close>

fun replay :: "grid \<Rightarrow> move list \<Rightarrow> js_error + grid" where
  "replay b [] = Inr b"
| "replay b (m # ms) =
     (case board_set b (row m) (col m) (player m) of
        Inl e \<Rightarrow> Inl e
      | Inr b' \<Rightarrow> replay b' ms)"

text \<open>
  An exception inside the \<open>forEach\<close> comes after \<open>setMoveHistory\<close>, whose update
  is already queued, and before every other setter.
\<close>

definition handleUndo :: "game \<Rightarrow> outcome \<times> game" where
  "handleUndo s =
     (if length (moveHistory s) = 0 then (Rejected NothingToUndo, s)
      else
        (let newMoveHistory = butlast (moveHistory s) in
         case replay emptyBoard newMoveHistory of
           Inl e \<Rightarrow> (Threw e, s\<lparr>moveHistory := newMoveHistory\<rparr>)
         | Inr newBoard \<Rightarrow>
             (let lst = (if length newMoveHistory > 0
                         then Some (newMoveHistory ! (length newMoveHistory - 1))
                         else None);
                  lastPlayer = player (moveHistory s ! (length (moveHistory s) - 1))
              in (Accepted,
                  s\<lparr>moveHistory := newMoveHistory, board := newBoard,
                    lastMove := (case lst of None \<Rightarrow> None
                                 | Some m \<Rightarrow> Some (row m, col m)),
                    currentPlayer := lastPlayer, gameStatus := PLAYING\<rparr>))))"

subsection \<open>handlePauseResume and handleNewGame\<close>

definition handlePauseResume :: "game \<Rightarrow> game" where
  "handlePauseResume s =
     (if gameStatus s = PLAYING then s\<lparr>gameStatus := PAUSED\<rparr>
      else if gameStatus s = PAUSED then s\<lparr>gameStatus := PLAYING\<rparr>
      else s)"

definition handleNewGame :: "game \<Rightarrow> game" where
  "handleNewGame s = initializeBoard"

subsection \<open>Sequences of operations\<close>

text \<open>
  The four operations a user can trigger, and the state after a sequence of them,
  starting from the state \<open>initializeBoard\<close> sets up when the component mounts.
\<close>

datatype operation = PlaceStone int int | Undo | TogglePause | Reset

fun apply_op :: "game \<Rightarrow> operation \<Rightarrow> game" where
  "apply_op s (PlaceStone r c) = snd (handleCellClick s r c)"
| "apply_op s Undo = snd (handleUndo s)"
| "apply_op s TogglePause = handlePauseResume s"
| "apply_op s Reset = handleNewGame s"

definition play :: "operation list \<Rightarrow> game" where
  "play ops = foldl apply_op initializeBoard ops"

section \<open>Notions used to state the properties\<close>

text \<open>A coordinate pair inside the 15 by 15 grid.\<close>

definition on_board :: "int \<Rightarrow> int \<Rightarrow> bool" where
  "on_board r c \<longleftrightarrow> 0 \<le> r \<and> r < BOARD_SIZE \<and> 0 \<le> c \<and> c < BOARD_SIZE"

text \<open>A board of the data model: 15 rows of 15 cells, each holding a piece value.\<close>

definition wf_board :: "grid \<Rightarrow> bool" where
  "wf_board b \<longleftrightarrow>
     length b = nat BOARD_SIZE \<and>
     list_all (\<lambda>cs. length cs = nat BOARD_SIZE \<and> list_all (\<lambda>v. v \<noteq> None) cs) b"

text \<open>The cell \<open>(r, c)\<close> is inside the grid and holds a stone of player \<open>p\<close>.\<close>

definition stone_at :: "grid \<Rightarrow> piece \<Rightarrow> int \<Rightarrow> int \<Rightarrow> bool" where
  "stone_at b p r c \<longleftrightarrow> on_board r c \<and> board_get b r c = Inr (Some p)"

text \<open>
  The number of consecutive stones of \<open>p\<close> met when walking from \<open>(r, c)\<close> in the
  direction \<open>(dx, dy)\<close>, the start excluded, up to the first cell that is outside
  the grid or does not hold a stone of \<open>p\<close>. No walk inside the grid is longer than
  15 steps (\<open>streak_stops\<close> below).
\<close>

definition streak :: "grid \<Rightarrow> piece \<Rightarrow> int \<Rightarrow> int \<Rightarrow> int \<Rightarrow> int \<Rightarrow> nat" where
  "streak b p r c dx dy =
     length (takeWhile (\<lambda>i. stone_at b p (r + i * dx) (c + i * dy)) [1..BOARD_SIZE])"

text \<open>The count of one orientation: the placed stone and the streaks on both sides.\<close>

definition line_count :: "grid \<Rightarrow> piece \<Rightarrow> int \<Rightarrow> int \<Rightarrow> int \<Rightarrow> int \<Rightarrow> nat" where
  "line_count b p r c dx dy = 1 + streak b p r c dx dy + streak b p r c (- dx) (- dy)"

text \<open>
  A count of at least 5 in at least one of the four orientations, each written
  out: along the row (column index changing), along the column (row index
  changing), along the diagonal on which both indices grow together, and along
  the diagonal on which one grows as the other falls.
\<close>

definition five_in_line :: "grid \<Rightarrow> int \<Rightarrow> int \<Rightarrow> piece \<Rightarrow> bool" where
  "five_in_line b r c p \<longleftrightarrow>
     line_count b p r c 0 1 \<ge> 5 \<or>
     line_count b p r c 1 0 \<ge> 5 \<or>
     line_count b p r c 1 1 \<ge> 5 \<or>
     line_count b p r c 1 (- 1) \<ge> 5"

text \<open>
  Two boards of the same shape whose cells agree everywhere except possibly at
  \<open>(r, c)\<close>.
\<close>

definition differ_only_at :: "grid \<Rightarrow> grid \<Rightarrow> int \<Rightarrow> int \<Rightarrow> bool" where
  "differ_only_at b b' r c \<longleftrightarrow>
     length b = length b' \<and>
     list_all (\<lambda>i. length (b ! i) = length (b' ! i) \<and>
                    list_all (\<lambda>j. (int i, int j) = (r, c) \<or> b ! i ! j = b' ! i ! j)
                      [0..<length (b ! i)])
       [0..<length b]"

text \<open>Counting cells.\<close>

definition cell_count :: "(piece option \<Rightarrow> bool) \<Rightarrow> grid \<Rightarrow> nat" where
  "cell_count P b = length (filter P (concat b))"

definition stones :: "grid \<Rightarrow> nat" where
  "stones b = cell_count (\<lambda>v. v \<noteq> Some EMPTY) b"

definition stones_of :: "piece \<Rightarrow> grid \<Rightarrow> nat" where
  "stones_of p b = cell_count (\<lambda>v. v = Some p) b"

text \<open>
  Replaying a history onto the all-empty board, as the specification words it:
  each move overwrites its cell, in order.
\<close>

definition place :: "grid \<Rightarrow> move \<Rightarrow> grid" where
  "place b m = b[nat (row m) := (b ! nat (row m))[nat (col m) := Some (player m)]]"

definition rebuilt :: "move list \<Rightarrow> grid" where
  "rebuilt ms = foldl place emptyBoard ms"

definition move_on_board :: "move \<Rightarrow> bool" where
  "move_on_board m \<longleftrightarrow> on_board (row m) (col m)"

text \<open>The invariant of the reachable states.\<close>

definition to_move :: "nat \<Rightarrow> piece" where
  "to_move n = (if even n then BLACK else WHITE)"

definition cell_of :: "move \<Rightarrow> int \<times> int" where
  "cell_of m = (row m, col m)"

definition turn_ok :: "game \<Rightarrow> bool" where
  "turn_ok s \<longleftrightarrow>
     (if gameStatus s = PLAYING \<or> gameStatus s = PAUSED
      then currentPlayer s = to_move (length (moveHistory s))
      else moveHistory s \<noteq> [] \<and> currentPlayer s = player (last (moveHistory s)))"

definition consistent :: "game \<Rightarrow> bool" where
  "consistent s \<longleftrightarrow>
     wf_board (board s) \<and>
     replay emptyBoard (moveHistory s) = Inr (board s) \<and>
     list_all move_on_board (moveHistory s) \<and>
     distinct (map cell_of (moveHistory s)) \<and>
     map player (moveHistory s) = map to_move [0..<length (moveHistory s)] \<and>
     gameStatus s \<noteq> DRAW \<and>
     turn_ok s"

section \<open>Example games\<close>

text \<open>
  A colouring of the whole grid without five in a line: BLACK where
  \<open>(c + 2 * r) mod 4 < 2\<close>, WHITE elsewhere. Rows repeat BLACK BLACK WHITE WHITE,
  shifted by two from one row to the next, so a line holds at most two equal
  stones in a row in every orientation. It has 113 BLACK and 112 WHITE cells.
\<close>

definition drawColour :: "int \<Rightarrow> int \<Rightarrow> piece" where
  "drawColour r c = (if (c + 2 * r) mod 4 < 2 then BLACK else WHITE)"

definition upTo14 :: "int list" where
  "upTo14 = [0, 1, 2, 3, 4, 5, 6, 7, 8, 9, 10, 11, 12, 13, 14]"

text \<open>
  The moves of one colour, from the bottom right corner back to the top left, so
  that the first cells \<open>checkDraw\<close> visits stay empty longest.
\<close>

definition drawCells :: "piece \<Rightarrow> move list" where
  "drawCells p =
     concat (map (\<lambda>r. concat (map (\<lambda>c. if drawColour r c = p
                                          then [\<lparr>row = r, col = c, player = p\<rparr>] else [])
                                (rev upTo14)))
               (rev upTo14))"

fun interleave :: "'a list \<Rightarrow> 'a list \<Rightarrow> 'a list" where
  "interleave (x # xs) (y # ys) = x # y # interleave xs ys"
| "interleave xs [] = xs"
| "interleave [] ys = ys"

text \<open>
  The 225 moves of a game that fills the grid in this colouring, BLACK and WHITE
  in turn, and the clicks that play it; the last move is BLACK at \<open>(0, 0)\<close>.
\<close>

definition drawMoves :: "move list" where
  "drawMoves = interleave (drawCells BLACK) (drawCells WHITE)"

definition drawGame :: "operation list" where
  "drawGame = map (\<lambda>m. PlaceStone (row m) (col m)) drawMoves"

text \<open>
  The state after the first 224 of these moves, written out: only \<open>(0, 0)\<close> is
  empty, WHITE has just moved at \<open>(0, 2)\<close> and BLACK is to move.
\<close>

definition lastCellState :: game where
  "lastCellState =
     \<lparr>board = map (\<lambda>r. map (\<lambda>c. if r = 0 \<and> c = 0 then Some EMPTY
                                   else Some (drawColour r c)) upTo14) upTo14,
      currentPlayer = BLACK, gameStatus = PLAYING,
      moveHistory = butlast drawMoves, lastMove = Some (0, 2)\<rparr>"

text \<open>A game in which BLACK completes five in row 7, and a game paused after its first stone.\<close>

definition winGame :: "operation list" where
  "winGame = [PlaceStone 7 3, PlaceStone 0 0, PlaceStone 7 4, PlaceStone 0 1,
              PlaceStone 7 5, PlaceStone 0 2, PlaceStone 7 6, PlaceStone 0 3,
              PlaceStone 7 7]"

definition pausedGame :: "operation list" where
  "pausedGame = [PlaceStone 7 7, TogglePause]"

text \<open>
  A board with four BLACK stones around the empty cell \<open>(7, 7)\<close>, two on each
  side, along the line through it in the direction \<open>(dx, dy)\<close>.
\<close>

definition lineBoard :: "int \<Rightarrow> int \<Rightarrow> grid" where
  "lineBoard dx dy =
     rebuilt (map (\<lambda>i. \<lparr>row = 7 + i * dx, col = 7 + i * dy, player = BLACK\<rparr>)
                [- 2, - 1, 1, 2])"

section \<open>Reads and writes on a well-formed board\<close>

lemma wf_board_emptyBoard: "wf_board emptyBoard"
  by (simp add: wf_board_def emptyBoard_def list_all_iff)

lemma wf_board_row:
  assumes "wf_board b" and "0 \<le> r" and "r < BOARD_SIZE"
  shows "js_index b r = Some (b ! nat r)" and "length (b ! nat r) = 15"
    and "list_all (\<lambda>v. v \<noteq> None) (b ! nat r)"
  using assms by (auto simp: wf_board_def js_index_def list_all_length)

lemma board_get_on_board:
  assumes "wf_board b" and "on_board r c"
  shows "board_get b r c = Inr (b ! nat r ! nat c)" and "b ! nat r ! nat c \<noteq> None"
  using assms wf_board_row [of b r]
  by (auto simp: on_board_def board_get_def js_index_def list_all_length split: option.splits)

lemma board_get_off_board:
  assumes "wf_board b" and "\<not> on_board r c"
  shows "board_get b r c = (if 0 \<le> r \<and> r < BOARD_SIZE then Inr None else Inl TypeError)"
  using assms wf_board_row [of b r]
  by (auto simp: on_board_def board_get_def js_index_def wf_board_def split: option.splits)

lemma board_get_EMPTY_on_board:
  assumes "wf_board b" and "board_get b r c = Inr (Some EMPTY)"
  shows "on_board r c"
proof (rule ccontr)
  assume "\<not> on_board r c"
  from board_get_off_board [OF assms(1) this] assms(2) show False
    by (simp split: if_splits)
qed

lemma board_set_on_board:
  assumes "wf_board b" and "on_board r c"
  shows "board_set b r c v = Inr (b[nat r := (b ! nat r)[nat c := Some v]])"
  using assms wf_board_row [of b r]
  by (auto simp: on_board_def board_set_def js_assign_def)

lemma wf_board_update:
  assumes "wf_board b"
  shows "wf_board (b[i := (b ! i)[j := Some v]])"
proof -
  have "length (b[i := (b ! i)[j := Some v]] ! n) = 15 \<and>
        (\<forall>k<length (b[i := (b ! i)[j := Some v]] ! n).
           b[i := (b ! i)[j := Some v]] ! n ! k \<noteq> None)"
    if "n < 15" for n
  proof (cases "n = i")
    case True
    have "(b ! i)[j := Some v] ! k \<noteq> None" if "k < 15" for k
      using assms \<open>n < 15\<close> True that
      by (cases "k = j") (auto simp: wf_board_def list_all_length)
    then show ?thesis
      using assms that True by (auto simp: wf_board_def list_all_length)
  next
    case False
    then show ?thesis
      using assms that by (auto simp: wf_board_def list_all_length)
  qed
  then show ?thesis
    using assms by (simp add: wf_board_def list_all_length)
qed

section \<open>Pause and resume\<close>

text \<open>
  C7. \<open>handlePauseResume\<close> takes the status PLAYING to PAUSED and PAUSED to
  PLAYING, and leaves each of BLACK_WIN, WHITE_WIN and DRAW as it is.
\<close>

theorem handlePauseResume_status:
  "gameStatus (handlePauseResume s) =
     (case gameStatus s of
        PLAYING \<Rightarrow> PAUSED | PAUSED \<Rightarrow> PLAYING
      | BLACK_WIN \<Rightarrow> BLACK_WIN | WHITE_WIN \<Rightarrow> WHITE_WIN | DRAW \<Rightarrow> DRAW)"
  by (cases "gameStatus s") (simp_all add: handlePauseResume_def)

text \<open>
  C10. \<open>handlePauseResume\<close> never changes the board, the move history, the
  current player or the last move, in any state: the state after it is the state
  before it with at most the status replaced.
\<close>

theorem handlePauseResume_frame:
  "board (handlePauseResume s) = board s \<and>
   moveHistory (handlePauseResume s) = moveHistory s \<and>
   currentPlayer (handlePauseResume s) = currentPlayer s \<and>
   lastMove (handlePauseResume s) = lastMove s \<and>
   handlePauseResume s = s\<lparr>gameStatus := gameStatus (handlePauseResume s)\<rparr>"
  by (simp add: handlePauseResume_def)

section \<open>Rejected placements\<close>

text \<open>
  C2, as stated, fails: \<open>handleCellClick\<close> has no bounds check and no banner of
  its own for coordinates outside the grid. In a fresh game a click at row 0,
  column 15 reads \<open>undefined\<close>, which is not EMPTY, and gets the banner of an
  occupied cell; a click at row 15, column 0 reads \<open>board[15][0]\<close> and throws.
\<close>

theorem outside_click_counterexample:
  "handleCellClick initializeBoard 0 15 = (Rejected CellOccupied, initializeBoard) \<and>
   handleCellClick initializeBoard 15 0 = (Threw TypeError, initializeBoard)"
  by code_simp

text \<open>
  C2, amended. On a 15 by 15 board a click outside the grid never places a stone
  and leaves the whole state (board, history, status, current player, last move)
  as it was. It is reported as game-not-in-progress when the status is not
  PLAYING; otherwise as an occupied cell when the row is inside the grid, and it
  ends in a TypeError when the row is outside.
\<close>

theorem handleCellClick_outside:
  assumes "wf_board (board s)" and "\<not> on_board r c"
  shows "handleCellClick s r c =
           (if gameStatus s \<noteq> PLAYING then Rejected GameNotInProgress
            else if 0 \<le> r \<and> r < BOARD_SIZE then Rejected CellOccupied
            else Threw TypeError, s)"
  using assms by (simp add: handleCellClick_def board_get_off_board)

theorem handleCellClick_outside_witness:
  "wf_board (board initializeBoard) \<and> \<not> on_board 3 (-1) \<and>
   handleCellClick initializeBoard 3 (-1) = (Rejected CellOccupied, initializeBoard)"
proof -
  have wf: "wf_board (board initializeBoard)"
    by (simp add: initializeBoard_def wf_board_emptyBoard)
  have off: "\<not> on_board 3 (-1)"
    by (simp add: on_board_def)
  have "gameStatus initializeBoard = PLAYING"
    by (simp add: initializeBoard_def)
  with handleCellClick_outside [OF wf off] wf off show ?thesis
    by simp
qed

text \<open>
  C6, as stated, fails in the reason it names: the status is tested before the
  cell, so a click on an occupied cell of a paused (or finished) game gets the
  banner of a game that is not in progress.
\<close>

theorem occupied_click_counterexample:
  "board_get (board (play pausedGame)) 7 7 = Inr (Some BLACK) \<and>
   gameStatus (play pausedGame) = PAUSED \<and>
   handleCellClick (play pausedGame) 7 7 = (Rejected GameNotInProgress, play pausedGame)"
  by code_simp

text \<open>
  C6, amended. In every state, a click on a cell inside the grid that is not
  EMPTY is rejected and leaves board, history, status and current player (the
  whole state) unchanged; the reason is the occupied cell when the status is
  PLAYING and game-not-in-progress otherwise.
\<close>

theorem handleCellClick_occupied:
  assumes "on_board r c" and "board_get (board s) r c = Inr v" and "v \<noteq> Some EMPTY"
  shows "handleCellClick s r c =
           (Rejected (if gameStatus s = PLAYING then CellOccupied else GameNotInProgress), s)"
  using assms by (simp add: handleCellClick_def)

theorem handleCellClick_occupied_witness:
  "on_board 7 7 \<and> board_get (board (play [PlaceStone 7 7])) 7 7 = Inr (Some BLACK) \<and>
   Some BLACK \<noteq> Some EMPTY \<and>
   handleCellClick (play [PlaceStone 7 7]) 7 7 = (Rejected CellOccupied, play [PlaceStone 7 7])"
proof -
  have on: "on_board 7 7"
    by (simp add: on_board_def)
  have occ: "board_get (board (play [PlaceStone 7 7])) 7 7 = Inr (Some BLACK)"
    by code_simp
  have st: "gameStatus (play [PlaceStone 7 7]) = PLAYING"
    by code_simp
  from handleCellClick_occupied [OF on occ] st on occ show ?thesis
    by simp
qed

section \<open>Win detection\<close>

subsection \<open>The scans never read the cell they start from\<close>

lemma scan_cong:
  assumes "\<And>k. 1 \<le> k \<Longrightarrow> k < 5 \<Longrightarrow>
             board_get b (r + k * dx) (c + k * dy) = board_get b' (r + k * dx) (c + k * dy)"
  shows "1 \<le> i \<Longrightarrow> scan b p r c dx dy i n = scan b' p r c dx dy i n"
  using assms
proof (induction b p r c dx dy i n rule: scan.induct)
  case (1 b p r c dx dy i count)
  note unroll = scan.simps [of b _ _ _ _ _ i] scan.simps [of b' _ _ _ _ _ i]
  show ?case
  proof (cases "i < 5 \<and> r + i * dx \<ge> 0 \<and> r + i * dx < BOARD_SIZE \<and>
                c + i * dy \<ge> 0 \<and> c + i * dy < BOARD_SIZE")
    case inside: True
    then have same: "board_get b' (r + i * dx) (c + i * dy) = board_get b (r + i * dx) (c + i * dy)"
      using "1.prems" by simp
    show ?thesis
    proof (cases "board_get b (r + i * dx) (c + i * dy)")
      case (Inl e)
      with same inside show ?thesis
        by (simp add: unroll)
    next
      case (Inr v)
      show ?thesis
      proof (cases "v = Some p")
        case hit: True
        have "scan b p r c dx dy (i + 1) (count + 1) = scan b' p r c dx dy (i + 1) (count + 1)"
          using "1.IH" [OF _ refl refl _ Inr hit] inside "1.prems" by simp
        with same inside Inr hit show ?thesis
          by (simp add: unroll)
      next
        case False
        with same inside Inr show ?thesis
          by (simp add: unroll)
      qed
    qed
  next
    case False
    then show ?thesis
      by (auto simp: unroll)
  qed
qed

lemma board_get_differ:
  assumes "differ_only_at b b' r c" and "(i, j) \<noteq> (r, c)"
  shows "board_get b i j = board_get b' i j"
proof (cases "0 \<le> i \<and> i < int (length b)")
  case True
  then have "nat i \<in> set [0..<length b]"
    by auto
  with assms(1) have len: "length (b ! nat i) = length (b' ! nat i)"
    and cells: "list_all (\<lambda>k. (int (nat i), int k) = (r, c) \<or> b ! nat i ! k = b' ! nat i ! k)
                  [0..<length (b ! nat i)]"
    unfolding differ_only_at_def list_all_iff by blast+
  show ?thesis
  proof (cases "0 \<le> j \<and> j < int (length (b ! nat i))")
    case inrow: True
    then have "nat j \<in> set [0..<length (b ! nat i)]"
      by auto
    with cells have "(int (nat i), int (nat j)) = (r, c) \<or> b ! nat i ! nat j = b' ! nat i ! nat j"
      unfolding list_all_iff by blast
    with True inrow assms(2) have "b ! nat i ! nat j = b' ! nat i ! nat j"
      by auto
    with True inrow len assms(1) show ?thesis
      by (simp add: board_get_def js_index_def differ_only_at_def)
  next
    case False
    with True len assms(1) show ?thesis
      by (auto simp: board_get_def js_index_def differ_only_at_def)
  qed
next
  case False
  with assms(1) show ?thesis
    by (auto simp: board_get_def js_index_def differ_only_at_def)
qed

lemma scan_differ:
  assumes "differ_only_at b b' r c" and "dx \<noteq> 0 \<or> dy \<noteq> 0"
  shows "scan b p r c dx dy 1 n = scan b' p r c dx dy 1 n"
proof (rule scan_cong)
  fix k :: int
  assume "1 \<le> k" and "k < 5"
  with assms(2) have "(r + k * dx, c + k * dy) \<noteq> (r, c)"
    by auto
  with assms(1) show "board_get b (r + k * dx) (c + k * dy) = board_get b' (r + k * dx) (c + k * dy)"
    by (rule board_get_differ)
qed simp

lemma checkWin_dirs_differ:
  assumes "differ_only_at b b' r c" and "list_all (\<lambda>(dx, dy). dx \<noteq> 0 \<or> dy \<noteq> 0) ds"
  shows "checkWin_dirs b r c p ds = checkWin_dirs b' r c p ds"
  using assms(2)
proof (induction ds)
  case Nil
  show ?case by simp
next
  case (Cons d ds)
  obtain dx dy where d: "d = (dx, dy)"
    by (cases d)
  with Cons.prems have nz: "dx \<noteq> 0 \<or> dy \<noteq> 0" and nz': "- dx \<noteq> 0 \<or> - dy \<noteq> 0"
    by auto
  from Cons have rest: "checkWin_dirs b r c p ds = checkWin_dirs b' r c p ds"
    by simp
  show ?case
    by (simp add: d rest scan_differ [OF assms(1) nz] scan_differ [OF assms(1) nz']
        split: sum.split)
qed

lemma differ_only_at_place:
  assumes "on_board r c"
  shows "differ_only_at b (place b \<lparr>row = r, col = c, player = v\<rparr>) r c"
proof -
  have r: "0 \<le> r" and c: "0 \<le> c"
    using assms by (simp_all add: on_board_def)
  have "length (b ! i) = length (b[nat r := (b ! nat r)[nat c := Some v]] ! i) \<and>
        (\<forall>j<length (b ! i). (int i, int j) = (r, c) \<or>
           b ! i ! j = b[nat r := (b ! nat r)[nat c := Some v]] ! i ! j)"
    if "i < length b" for i
  proof (cases "i = nat r")
    case True
    have "int j = c" if "j < length (b ! nat r)" "b ! nat r ! j \<noteq> (b ! nat r)[nat c := Some v] ! j"
      for j
    proof -
      from that have "j = nat c"
        by (cases "j = nat c") simp_all
      with c show ?thesis
        by simp
    qed
    with True that r show ?thesis
      by auto
  next
    case False
    with that show ?thesis
      by simp
  qed
  then show ?thesis
    by (simp add: differ_only_at_def place_def list_all_iff)
qed

text \<open>The snapshot from before a placement and the board after it give the same verdict.\<close>

lemma checkWin_before_placement:
  assumes "on_board r c"
  shows "checkWin b r c p = checkWin (place b \<lparr>row = r, col = c, player = v\<rparr>) r c p"
  unfolding checkWin_def
  by (rule checkWin_dirs_differ [OF differ_only_at_place [OF assms]]) (simp add: directions_def)

text \<open>
  C9. The result of \<open>checkWin b r c p\<close> does not depend on what the board holds
  at \<open>(r, c)\<close> itself: on two boards that differ only at \<open>(r, c)\<close> it returns the
  same value (the scans read cells at distance 1 to 4 only, and the count starts
  at 1 for the placed stone). So the snapshot from before the placement gives
  the verdict for the position after it.
\<close>

theorem checkWin_ignores_own_cell:
  assumes "differ_only_at b b' r c"
  shows "checkWin b r c p = checkWin b' r c p"
  unfolding checkWin_def
  by (rule checkWin_dirs_differ [OF assms]) (simp add: directions_def)

theorem checkWin_ignores_own_cell_witness:
  "differ_only_at (board (play (butlast winGame))) (board (play winGame)) 7 7 \<and>
   checkWin (board (play (butlast winGame))) 7 7 BLACK = checkWin (board (play winGame)) 7 7 BLACK \<and>
   checkWin (board (play winGame)) 7 7 BLACK = Inr True"
proof -
  have d: "differ_only_at (board (play (butlast winGame))) (board (play winGame)) 7 7"
    by code_simp
  have w: "checkWin (board (play winGame)) 7 7 BLACK = Inr True"
    by code_simp
  from checkWin_ignores_own_cell [OF d] d w show ?thesis
    by simp
qed

subsection \<open>The scans and the line count\<close>

lemma scan_step:
  assumes "wf_board b"
  shows "scan b p r c dx dy i n =
           (if i < 5 \<and> stone_at b p (r + i * dx) (c + i * dy)
            then scan b p r c dx dy (i + 1) (n + 1) else Inr n)"
proof (cases "on_board (r + i * dx) (c + i * dy)")
  case True
  from board_get_on_board(1) [OF assms True] True show ?thesis
    by (simp add: scan.simps [of b _ _ _ _ _ i] stone_at_def on_board_def)
next
  case False
  then show ?thesis
    by (auto simp: scan.simps [of b _ _ _ _ _ i] stone_at_def on_board_def)
qed

lemma scan_counts:
  assumes "wf_board b"
  shows "scan b p r c dx dy 1 n =
           Inr (n + length (takeWhile (\<lambda>i. stone_at b p (r + i * dx) (c + i * dy)) [1, 2, 3, 4]))"
  by (simp add: scan_step [OF assms, of _ _ _ _ _ 1] scan_step [OF assms, of _ _ _ _ _ 2]
      scan_step [OF assms, of _ _ _ _ _ 3] scan_step [OF assms, of _ _ _ _ _ 4]
      scan_step [OF assms, of _ _ _ _ _ 5])

lemma takeWhile_append_min:
  "length (takeWhile P xs) = min (length xs) (length (takeWhile P (xs @ ys)))"
  by (induction xs) auto

lemma scan_streak:
  assumes "wf_board b"
  shows "scan b p r c dx dy 1 n = Inr (n + min 4 (streak b p r c dx dy))"
proof -
  have "[1..BOARD_SIZE] = [1, 2, 3, 4] @ [5..BOARD_SIZE]"
    using upto_split1 [of 1 5 BOARD_SIZE] by (simp add: upto_rec1)
  then have "length (takeWhile (\<lambda>i. stone_at b p (r + i * dx) (c + i * dy)) [1, 2, 3, 4]) =
               min 4 (streak b p r c dx dy)"
    unfolding streak_def
    using takeWhile_append_min [of _ "[1, 2, 3, 4]" "[5..BOARD_SIZE]"]
    by simp
  with scan_counts [OF assms] show ?thesis
    by simp
qed

lemma checkWin_dirs_wf:
  assumes "wf_board b"
  shows "checkWin_dirs b r c p ds =
           Inr (list_ex (\<lambda>(dx, dy). line_count b p r c dx dy \<ge> 5) ds)"
proof (induction ds)
  case Nil
  show ?case by simp
next
  case (Cons d ds)
  obtain dx dy where d: "d = (dx, dy)"
    by (cases d)
  have "(5 \<le> Suc (min 4 x + min 4 y)) = (5 \<le> Suc (x + y))" for x y :: nat
    by arith
  then show ?case
    by (simp add: d Cons scan_streak [OF assms] line_count_def)
qed

text \<open>
  C3. On a 15 by 15 board, for every cell and player, \<open>checkWin\<close> returns true
  if and only if in at least one of the four orientations (horizontal, vertical
  and the two diagonals, written out in \<open>five_in_line\<close>) the count of
  consecutive stones of the player through the cell is at least 5: the placed
  stone counted as 1, plus the streaks in both directions, each ending at the
  first cell that does not match or is outside the grid. A line longer than five
  counts as well. (The scans stop after four cells; a streak cut at four already
  gives a count of five.)
\<close>

theorem checkWin_five_in_line:
  assumes "wf_board b"
  shows "checkWin b r c p = Inr (five_in_line b r c p)"
proof -
  have "checkWin b r c p =
          Inr (list_ex (\<lambda>(dx, dy). line_count b p r c dx dy \<ge> 5) directions)"
    by (simp add: checkWin_def checkWin_dirs_wf [OF assms])
  then show ?thesis
    by (simp add: directions_def five_in_line_def)
qed

text \<open>
  The streak is what the words say: every cell up to its length matches, and the
  next one does not match or is outside the grid.
\<close>

lemma stone_at_twice:
  assumes "stone_at b p (r + i * dx) (c + i * dy)" and "stone_at b p (r + (i + 15) * dx) (c + (i + 15) * dy)"
  shows "dx = 0 \<and> dy = 0"
proof -
  have "0 \<le> r + i * dx" "r + i * dx < 15" "0 \<le> r + i * dx + 15 * dx" "r + i * dx + 15 * dx < 15"
       "0 \<le> c + i * dy" "c + i * dy < 15" "0 \<le> c + i * dy + 15 * dy" "c + i * dy + 15 * dy < 15"
    using assms by (simp_all add: stone_at_def on_board_def algebra_simps)
  then show ?thesis
    by arith
qed

lemma streak_stops:
  assumes "dx \<noteq> 0 \<or> dy \<noteq> 0"
  shows "(\<forall>i. 1 \<le> i \<and> i \<le> int (streak b p r c dx dy) \<longrightarrow> stone_at b p (r + i * dx) (c + i * dy)) \<and>
         \<not> stone_at b p (r + (int (streak b p r c dx dy) + 1) * dx)
                        (c + (int (streak b p r c dx dy) + 1) * dy)"
proof -
  define M where "M = (\<lambda>i. stone_at b p (r + i * dx) (c + i * dy))"
  define n where "n = length (takeWhile M [1..BOARD_SIZE])"
  have n: "streak b p r c dx dy = n"
    by (simp add: streak_def n_def M_def)
  have le: "n \<le> 15"
    using length_takeWhile_le [of M "[1..BOARD_SIZE]"] by (simp add: n_def)
  have hit: "M i" if "1 \<le> i" "i \<le> int n" for i
  proof -
    have k: "nat (i - 1) < n"
      using that by auto
    then have "takeWhile M [1..BOARD_SIZE] ! nat (i - 1) = [1..BOARD_SIZE] ! nat (i - 1)"
      unfolding n_def by (rule takeWhile_nth)
    also have "\<dots> = i"
      using that le by simp
    finally have "i \<in> set (takeWhile M [1..BOARD_SIZE])"
      using k nth_mem [of "nat (i - 1)" "takeWhile M [1..BOARD_SIZE]"] by (simp add: n_def)
    then show ?thesis
      by (rule set_takeWhileD [THEN conjunct2])
  qed
  have miss: "\<not> M (int n + 1)"
  proof (cases "n < 15")
    case True
    then have "\<not> M ([1..BOARD_SIZE] ! n)"
      unfolding n_def by (intro nth_length_takeWhile) simp
    with True show ?thesis
      by (simp add: add.commute)
  next
    case False
    with le have n15: "n = 15" by simp
    then have "M 1" using hit [of 1] by simp
    show ?thesis
    proof
      assume "M (int n + 1)"
      with \<open>M 1\<close> n15 stone_at_twice [of b p r 1 dx c dy] assms show False
        by (simp add: M_def)
    qed
  qed
  from hit miss show ?thesis
    by (simp add: n M_def)
qed

theorem checkWin_five_in_line_witness:
  "wf_board (lineBoard 0 1) \<and> checkWin (lineBoard 0 1) 7 7 BLACK = Inr True \<and>
   wf_board (lineBoard 1 0) \<and> checkWin (lineBoard 1 0) 7 7 BLACK = Inr True \<and>
   wf_board (lineBoard 1 1) \<and> checkWin (lineBoard 1 1) 7 7 BLACK = Inr True \<and>
   wf_board (lineBoard 1 (- 1)) \<and> checkWin (lineBoard 1 (- 1)) 7 7 BLACK = Inr True \<and>
   checkWin (lineBoard 1 0) 7 8 BLACK = Inr False \<and>
   checkWin (lineBoard 1 0) 7 7 WHITE = Inr False"
proof -
  have wf: "wf_board (lineBoard 0 1)" "wf_board (lineBoard 1 0)"
    "wf_board (lineBoard 1 1)" "wf_board (lineBoard 1 (- 1))"
    by code_simp+
  have "five_in_line (lineBoard 0 1) 7 7 BLACK"
    by code_simp
  moreover have "five_in_line (lineBoard 1 0) 7 7 BLACK"
    by code_simp
  moreover have "five_in_line (lineBoard 1 1) 7 7 BLACK"
    by code_simp
  moreover have "five_in_line (lineBoard 1 (- 1)) 7 7 BLACK"
    by code_simp
  moreover have "\<not> five_in_line (lineBoard 1 0) 7 8 BLACK"
    by code_simp
  moreover have "\<not> five_in_line (lineBoard 1 0) 7 7 WHITE"
    by code_simp
  ultimately show ?thesis
    using wf checkWin_five_in_line [OF wf(1)] checkWin_five_in_line [OF wf(2)]
      checkWin_five_in_line [OF wf(3)] checkWin_five_in_line [OF wf(4)]
    by simp
qed

section \<open>Replaying a history\<close>

lemma replay_append:
  "replay b (xs @ ys) = (case replay b xs of Inl e \<Rightarrow> Inl e | Inr b' \<Rightarrow> replay b' ys)"
  by (induction xs arbitrary: b) (auto split: sum.splits)

lemma wf_board_place:
  assumes "wf_board b"
  shows "wf_board (place b m)"
  using assms by (simp add: place_def wf_board_update)

lemma board_set_place:
  assumes "wf_board b" and "move_on_board m"
  shows "board_set b (row m) (col m) (player m) = Inr (place b m)"
  using assms by (simp add: place_def move_on_board_def board_set_on_board)

lemma wf_board_foldl_place:
  assumes "wf_board b"
  shows "wf_board (foldl place b ms)"
  using assms by (induction ms arbitrary: b) (simp_all add: wf_board_place)

lemma replay_foldl_place:
  assumes "wf_board b" and "list_all move_on_board ms"
  shows "replay b ms = Inr (foldl place b ms)"
  using assms
  by (induction ms arbitrary: b) (simp_all add: board_set_place wf_board_place)

lemma replay_rebuilt:
  assumes "list_all move_on_board ms"
  shows "replay emptyBoard ms = Inr (rebuilt ms)"
  using assms by (simp add: rebuilt_def replay_foldl_place wf_board_emptyBoard)

lemma wf_board_rebuilt: "wf_board (rebuilt ms)"
  by (simp add: rebuilt_def wf_board_foldl_place wf_board_emptyBoard)

text \<open>Reading a cell after one placement.\<close>

lemma place_nth:
  assumes "wf_board b" and "move_on_board m" and "on_board r c"
  shows "place b m ! nat r ! nat c =
           (if (r, c) = cell_of m then Some (player m) else b ! nat r ! nat c)"
proof -
  have rows: "nat (row m) < length b" "nat r < length b"
    and cols: "nat (col m) < length (b ! nat (row m))" "nat c < length (b ! nat r)"
    using assms wf_board_row(2) [of b r] wf_board_row(2) [of b "row m"]
    by (auto simp: wf_board_def move_on_board_def on_board_def)
  have eq: "(nat r = nat (row m)) = (r = row m)" "(nat c = nat (col m)) = (c = col m)"
    using assms by (auto simp: move_on_board_def on_board_def)
  show ?thesis
  proof (cases "r = row m")
    case True
    with rows cols eq show ?thesis
      by (auto simp: place_def cell_of_def nth_list_update)
  next
    case False
    with rows eq show ?thesis
      by (simp add: place_def cell_of_def)
  qed
qed

text \<open>Counting cells after one placement.\<close>

lemma filter_update_count:
  assumes "j < length cs"
  shows "length (filter P (cs[j := v])) + (if P (cs ! j) then 1 else 0) =
           length (filter P cs) + (if P v then 1 else 0)"
  using assms
proof (induction cs arbitrary: j)
  case Nil
  then show ?case by simp
next
  case (Cons a cs)
  then show ?case
    by (cases j) auto
qed

lemma cell_count_update:
  assumes "i < length b" and "j < length (b ! i)"
  shows "cell_count P (b[i := (b ! i)[j := v]]) + (if P (b ! i ! j) then 1 else 0) =
           cell_count P b + (if P v then 1 else 0)"
  using assms
proof (induction b arbitrary: i)
  case Nil
  then show ?case by simp
next
  case (Cons cs b)
  show ?case
  proof (cases i)
    case 0
    with Cons.prems filter_update_count [of j cs P v] show ?thesis
      by (simp add: cell_count_def)
  next
    case (Suc k)
    with Cons.prems Cons.IH [of k] show ?thesis
      by (simp add: cell_count_def)
  qed
qed

lemma cell_count_place:
  assumes "wf_board b" and "move_on_board m"
    and "b ! nat (row m) ! nat (col m) = Some EMPTY" and "\<not> P (Some EMPTY)"
  shows "cell_count P (place b m) = cell_count P b + (if P (Some (player m)) then 1 else 0)"
proof -
  have "nat (row m) < length b" and "nat (col m) < length (b ! nat (row m))"
    using assms(1,2) wf_board_row(2) [of b "row m"]
    by (auto simp: wf_board_def move_on_board_def on_board_def)
  from cell_count_update [OF this, of P "Some (player m)"] assms(3,4) show ?thesis
    by (simp add: place_def)
qed

lemma cell_count_emptyBoard:
  assumes "\<not> P (Some EMPTY)"
  shows "cell_count P emptyBoard = 0"
proof -
  have "set (concat emptyBoard) \<subseteq> {Some EMPTY}"
    by (auto simp: emptyBoard_def)
  with assms show ?thesis
    by (auto simp: cell_count_def filter_empty_conv)
qed

lemma cell_count_foldl_place:
  assumes "wf_board b" and "list_all move_on_board ms" and "distinct (map cell_of ms)"
    and "\<forall>m\<in>set ms. b ! nat (row m) ! nat (col m) = Some EMPTY" and "\<not> P (Some EMPTY)"
  shows "cell_count P (foldl place b ms) =
           cell_count P b + length (filter (\<lambda>m. P (Some (player m))) ms)"
  using assms(1-4)
proof (induction ms arbitrary: b)
  case Nil
  show ?case by simp
next
  case (Cons m ms)
  have still: "\<forall>m'\<in>set ms. place b m ! nat (row m') ! nat (col m') = Some EMPTY"
  proof
    fix m' assume m': "m' \<in> set ms"
    from m' Cons.prems(2) have "move_on_board m'"
      by (simp add: list_all_iff)
    moreover from m' Cons.prems(3) have "cell_of m' \<noteq> cell_of m"
      by (auto simp: image_iff)
    ultimately have "move_on_board m'" "cell_of m' \<noteq> cell_of m"
      by simp_all
    with place_nth [of b m "row m'" "col m'"] Cons.prems m' show
      "place b m ! nat (row m') ! nat (col m') = Some EMPTY"
      by (auto simp: move_on_board_def cell_of_def)
  qed
  have "cell_count P (foldl place (place b m) ms) =
          cell_count P (place b m) + length (filter (\<lambda>m. P (Some (player m))) ms)"
    using Cons.prems still by (intro Cons.IH) (simp_all add: wf_board_place)
  moreover have "cell_count P (place b m) = cell_count P b + (if P (Some (player m)) then 1 else 0)"
    using Cons.prems assms(5) by (intro cell_count_place) simp_all
  ultimately show ?case
    by simp
qed

lemma cell_count_rebuilt:
  assumes "list_all move_on_board ms" and "distinct (map cell_of ms)" and "\<not> P (Some EMPTY)"
  shows "cell_count P (rebuilt ms) = length (filter (\<lambda>m. P (Some (player m))) ms)"
proof -
  have "\<forall>m\<in>set ms. emptyBoard ! nat (row m) ! nat (col m) = Some EMPTY"
    using assms(1) by (auto simp: list_all_iff move_on_board_def on_board_def emptyBoard_def)
  from cell_count_foldl_place [where P = P, OF wf_board_emptyBoard assms(1,2) this assms(3)]
  show ?thesis
    using assms(3) by (simp add: rebuilt_def cell_count_emptyBoard)
qed

text \<open>A replayed move leaves its cell occupied.\<close>

lemma foldl_place_keeps:
  assumes "wf_board b" and "list_all move_on_board ms" and "\<forall>m\<in>set ms. player m \<noteq> EMPTY"
    and "on_board r c" and "b ! nat r ! nat c \<noteq> Some EMPTY"
  shows "foldl place b ms ! nat r ! nat c \<noteq> Some EMPTY"
  using assms(1,2,3,5)
proof (induction ms arbitrary: b)
  case Nil
  then show ?case by simp
next
  case (Cons m ms)
  have "place b m ! nat r ! nat c \<noteq> Some EMPTY"
    using place_nth [of b m r c] Cons.prems assms(4) by simp
  with Cons.prems show ?case
    by (simp add: Cons.IH wf_board_place)
qed

lemma foldl_place_occupied:
  assumes "wf_board b" and "list_all move_on_board ms" and "\<forall>m\<in>set ms. player m \<noteq> EMPTY"
    and "m \<in> set ms"
  shows "foldl place b ms ! nat (row m) ! nat (col m) \<noteq> Some EMPTY"
  using assms
proof (induction ms arbitrary: b)
  case Nil
  then show ?case by simp
next
  case (Cons a ms)
  show ?case
  proof (cases "m = a")
    case True
    have on: "on_board (row a) (col a)"
      using Cons.prems by (simp add: move_on_board_def)
    have "place b a ! nat (row a) ! nat (col a) = Some (player a)"
      using place_nth [of b a "row a" "col a"] Cons.prems on by (simp add: cell_of_def)
    then have "place b a ! nat (row a) ! nat (col a) \<noteq> Some EMPTY"
      using Cons.prems by simp
    from foldl_place_keeps [OF _ _ _ on this, of ms] Cons.prems True show ?thesis
      by (simp add: wf_board_place)
  next
    case False
    with Cons.prems show ?thesis
      by (simp add: Cons.IH wf_board_place)
  qed
qed

text \<open>Players taking turns.\<close>

lemma count_to_move:
  "length (filter (\<lambda>i. to_move i = BLACK) [0..<n]) = (n + 1) div 2 \<and>
   length (filter (\<lambda>i. to_move i = WHITE) [0..<n]) = n div 2"
  by (induction n) (auto simp: to_move_def)

lemma count_players:
  assumes "map player ms = map to_move [0..<length ms]"
  shows "length (filter (\<lambda>m. player m = p) ms) =
           length (filter (\<lambda>i. to_move i = p) [0..<length ms])"
proof -
  have "length (filter (\<lambda>m. player m = p) ms) = length (filter (\<lambda>x. x = p) (map player ms))"
    by (simp add: filter_map comp_def)
  also have "\<dots> = length (filter (\<lambda>x. x = p) (map to_move [0..<length ms]))"
    by (simp only: assms)
  also have "\<dots> = length (filter (\<lambda>i. to_move i = p) [0..<length ms])"
    by (simp add: filter_map comp_def)
  finally show ?thesis .
qed

lemma players_not_EMPTY:
  assumes "map player ms = map to_move [0..<length ms]"
  shows "\<forall>m\<in>set ms. player m \<noteq> EMPTY"
proof
  fix m assume "m \<in> set ms"
  then have "player m \<in> set (map player ms)"
    by simp
  then have "player m \<in> set (map to_move [0..<length ms])"
    by (simp only: assms)
  then show "player m \<noteq> EMPTY"
    by (auto simp: to_move_def)
qed

section \<open>Accepted placements\<close>

text \<open>\<open>checkDraw\<close> answers false as soon as the board it reads has an empty cell.\<close>

lemma checkDraw_from_sees_empty:
  "wf_board b \<Longrightarrow> on_board r c \<Longrightarrow> board_get b r c = Inr (Some EMPTY) \<Longrightarrow>
   0 \<le> i \<Longrightarrow> 0 \<le> j \<Longrightarrow> i < r \<or> (i = r \<and> j \<le> c) \<Longrightarrow>
   checkDraw_from b i j = Inr False"
proof (induction b i j rule: checkDraw_from.induct)
  case (1 b i j)
  note unroll = checkDraw_from.simps [of b i j]
  have i15: "i < BOARD_SIZE"
    using "1.prems" by (auto simp: on_board_def)
  show ?case
  proof (cases "j < BOARD_SIZE")
    case True
    then have on: "on_board i j"
      using i15 "1.prems" by (simp add: on_board_def)
    from board_get_on_board [OF "1.prems"(1) on]
    obtain v where v: "board_get b i j = Inr v"
      by blast
    show ?thesis
    proof (cases "v = Some EMPTY")
      case True
      with v i15 \<open>j < BOARD_SIZE\<close> show ?thesis
        by (simp add: unroll)
    next
      case False
      have "j \<noteq> c" if "i = r"
        using that v False "1.prems"(3) by auto
      with "1.prems" have "i < r \<or> (i = r \<and> j + 1 \<le> c)"
        by auto
      with "1.IH"(1) [OF i15 True v False] "1.prems" have "checkDraw_from b i (j + 1) = Inr False"
        by simp
      with v i15 True False show ?thesis
        by (simp add: unroll)
    qed
  next
    case False
    with "1.prems" have "i + 1 < r \<or> (i + 1 = r \<and> 0 \<le> c)"
      by (auto simp: on_board_def)
    with "1.IH"(2) [OF i15 False] "1.prems" have "checkDraw_from b (i + 1) 0 = Inr False"
      by simp
    with i15 False show ?thesis
      by (simp add: unroll)
  qed
qed

lemma checkDraw_sees_empty:
  assumes "wf_board b" and "board_get b r c = Inr (Some EMPTY)"
  shows "checkDraw b = Inr False"
proof -
  have on: "on_board r c"
    using assms by (rule board_get_EMPTY_on_board)
  then have "0 < r \<or> (0 = r \<and> 0 \<le> c)"
    by (auto simp: on_board_def)
  with checkDraw_from_sees_empty [OF assms(1) on assms(2), of 0 0] show ?thesis
    by (simp add: checkDraw_def)
qed

text \<open>
  On the board it is given, \<open>checkDraw\<close> is right: true exactly when no cell of
  the grid is empty.
\<close>

lemma checkDraw_from_full:
  "wf_board b \<Longrightarrow> 0 \<le> i \<Longrightarrow> 0 \<le> j \<Longrightarrow>
   (\<And>r c. on_board r c \<Longrightarrow> board_get b r c \<noteq> Inr (Some EMPTY)) \<Longrightarrow>
   checkDraw_from b i j = Inr True"
proof (induction b i j rule: checkDraw_from.induct)
  case (1 b i j)
  note unroll = checkDraw_from.simps [of b i j]
  show ?case
  proof (cases "i < BOARD_SIZE")
    case i15: True
    show ?thesis
    proof (cases "j < BOARD_SIZE")
      case True
      then have on: "on_board i j"
        using i15 "1.prems" by (simp add: on_board_def)
      from board_get_on_board [OF "1.prems"(1) on]
      obtain v where v: "board_get b i j = Inr v"
        by blast
      with "1.prems"(4) [OF on] have ne: "v \<noteq> Some EMPTY"
        by simp
      from "1.IH"(1) [OF i15 True v ne] "1.prems"
      have "checkDraw_from b i (j + 1) = Inr True"
        by simp
      with v ne i15 True show ?thesis
        by (simp add: unroll)
    next
      case False
      from "1.IH"(2) [OF i15 False] "1.prems"
      have "checkDraw_from b (i + 1) 0 = Inr True"
        by simp
      with i15 False show ?thesis
        by (simp add: unroll)
    qed
  next
    case False
    then show ?thesis
      by (simp add: unroll)
  qed
qed

lemma checkDraw_wf:
  assumes "wf_board b"
  shows "checkDraw b = Inr (\<forall>r c. on_board r c \<longrightarrow> board_get b r c \<noteq> Inr (Some EMPTY))"
proof (cases "\<forall>r c. on_board r c \<longrightarrow> board_get b r c \<noteq> Inr (Some EMPTY)")
  case True
  with checkDraw_from_full [OF assms, of 0 0] show ?thesis
    by (simp add: checkDraw_def)
next
  case False
  then obtain r c where "board_get b r c = Inr (Some EMPTY)"
    by blast
  from checkDraw_sees_empty [OF assms this] False show ?thesis
    by simp
qed

lemma checkWin_wf:
  assumes "wf_board b"
  shows "checkWin b r c p = Inr (five_in_line b r c p)"
proof -
  have "checkWin b r c p =
          Inr (list_ex (\<lambda>(dx, dy). line_count b p r c dx dy \<ge> 5) directions)"
    by (simp add: checkWin_def checkWin_dirs_wf [OF assms])
  then show ?thesis
    by (simp add: directions_def five_in_line_def)
qed

text \<open>What an accepted click does, on a well-formed board.\<close>

lemma handleCellClick_accepts:
  assumes "wf_board (board s)" and "gameStatus s = PLAYING"
    and "board_get (board s) r c = Inr (Some EMPTY)"
  shows "handleCellClick s r c =
           (Accepted,
            s\<lparr>board := place (board s) \<lparr>row = r, col = c, player = currentPlayer s\<rparr>,
              moveHistory := moveHistory s @ [\<lparr>row = r, col = c, player = currentPlayer s\<rparr>],
              lastMove := Some (r, c),
              gameStatus :=
                (if five_in_line (board s) r c (currentPlayer s)
                 then (if currentPlayer s = BLACK then BLACK_WIN else WHITE_WIN)
                 else PLAYING),
              currentPlayer :=
                (if five_in_line (board s) r c (currentPlayer s) then currentPlayer s
                 else if currentPlayer s = BLACK then WHITE else BLACK)\<rparr>)"
proof -
  have on: "on_board r c"
    using assms(1,3) by (rule board_get_EMPTY_on_board)
  have set: "board_set (board s) r c (currentPlayer s) =
               Inr (place (board s) \<lparr>row = r, col = c, player = currentPlayer s\<rparr>)"
    using board_set_place [OF assms(1), of "\<lparr>row = r, col = c, player = currentPlayer s\<rparr>"] on
    by (simp add: move_on_board_def)
  show ?thesis
    using assms(2,3) set checkDraw_sees_empty [OF assms(1,3)]
    by (simp add: handleCellClick_def checkWin_wf [OF assms(1)] Let_def)
qed

lemma handleCellClick_cases:
  assumes "wf_board (board s)"
  shows "handleCellClick s r c = (Rejected GameNotInProgress, s) \<or>
         handleCellClick s r c = (Rejected CellOccupied, s) \<or>
         handleCellClick s r c = (Threw TypeError, s) \<or>
         (gameStatus s = PLAYING \<and> board_get (board s) r c = Inr (Some EMPTY))"
proof (cases "board_get (board s) r c")
  case (Inl e)
  then show ?thesis
    by (cases e) (simp add: handleCellClick_def)
next
  case (Inr v)
  then show ?thesis
    by (simp add: handleCellClick_def)
qed

section \<open>Undo\<close>

lemma handleUndo_wf:
  assumes "list_all move_on_board (moveHistory s)"
  shows "handleUndo s =
           (if moveHistory s = [] then (Rejected NothingToUndo, s)
            else (Accepted,
                  s\<lparr>moveHistory := butlast (moveHistory s),
                    board := rebuilt (butlast (moveHistory s)),
                    lastMove :=
                      (if butlast (moveHistory s) = [] then None
                       else Some (row (last (butlast (moveHistory s))),
                                  col (last (butlast (moveHistory s))))),
                    currentPlayer := player (last (moveHistory s)),
                    gameStatus := PLAYING\<rparr>))"
proof (cases "moveHistory s = []")
  case True
  then show ?thesis
    by (simp add: handleUndo_def)
next
  case False
  have "list_all move_on_board (butlast (moveHistory s))"
    using assms by (auto simp: list_all_iff dest: in_set_butlastD)
  then have "replay emptyBoard (butlast (moveHistory s)) = Inr (rebuilt (butlast (moveHistory s)))"
    by (rule replay_rebuilt)
  moreover have "moveHistory s ! (length (moveHistory s) - 1) = last (moveHistory s)"
    using False by (simp add: last_conv_nth)
  moreover have "butlast (moveHistory s) ! (length (butlast (moveHistory s)) - 1) =
                   last (butlast (moveHistory s))"
    if "butlast (moveHistory s) \<noteq> []"
    using that by (simp add: last_conv_nth)
  ultimately show ?thesis
    using False
    by (cases "butlast (moveHistory s) = []")
      (simp_all add: handleUndo_def Let_def del: length_butlast)
qed

section \<open>The invariant of the reachable states\<close>

lemma consistent_initializeBoard: "consistent initializeBoard"
  by (simp add: consistent_def initializeBoard_def wf_board_emptyBoard turn_ok_def to_move_def)

lemma consistent_handlePauseResume:
  assumes "consistent s"
  shows "consistent (handlePauseResume s)"
  using assms by (auto simp: consistent_def handlePauseResume_def turn_ok_def)

lemma consistent_board:
  assumes "consistent s"
  shows "board s = rebuilt (moveHistory s)"
  using assms replay_rebuilt [of "moveHistory s"] by (simp add: consistent_def)

lemma consistent_handleUndo:
  assumes "consistent s"
  shows "consistent (snd (handleUndo s))"
proof (cases "moveHistory s = []")
  case True
  with assms show ?thesis
    by (simp add: handleUndo_def)
next
  case False
  let ?h = "moveHistory s"
  have on: "list_all move_on_board ?h" and dist: "distinct (map cell_of ?h)"
    and alt: "map player ?h = map to_move [0..<length ?h]"
    using assms by (simp_all add: consistent_def)
  have on': "list_all move_on_board (butlast ?h)"
    using on by (auto simp: list_all_iff dest: in_set_butlastD)
  have dist': "distinct (map cell_of (butlast ?h))"
    using dist by (simp add: map_butlast distinct_butlast)
  have "map player (butlast ?h) = butlast (map to_move [0..<length ?h])"
    using alt by (simp add: map_butlast)
  also have "\<dots> = map to_move [0..<length (butlast ?h)]"
    by (simp add: butlast_conv_take take_map)
  finally have alt': "map player (butlast ?h) = map to_move [0..<length (butlast ?h)]" .
  have "player (last ?h) = map player ?h ! (length ?h - 1)"
    using False by (simp add: last_conv_nth)
  also have "\<dots> = to_move (length ?h - 1)"
    using False by (simp only: alt) simp
  finally have turn: "player (last ?h) = to_move (length (butlast ?h))"
    by simp
  show ?thesis
    using False on' dist' alt' turn
    by (simp add: handleUndo_wf [OF on] consistent_def replay_rebuilt wf_board_rebuilt turn_ok_def)
qed

lemma consistent_handleCellClick:
  assumes "consistent s"
  shows "consistent (snd (handleCellClick s r c))"
proof -
  have wf: "wf_board (board s)"
    using assms by (simp add: consistent_def)
  from handleCellClick_cases [OF wf, of r c] show ?thesis
  proof (elim disjE conjE)
    assume playing: "gameStatus s = PLAYING" and empty: "board_get (board s) r c = Inr (Some EMPTY)"
    let ?h = "moveHistory s"
    let ?m = "\<lparr>row = r, col = c, player = currentPlayer s\<rparr>"
    have on_rc: "on_board r c"
      using wf empty by (rule board_get_EMPTY_on_board)
    have on: "list_all move_on_board ?h" and dist: "distinct (map cell_of ?h)"
      and alt: "map player ?h = map to_move [0..<length ?h]"
      and rep: "replay emptyBoard ?h = Inr (board s)"
      using assms by (simp_all add: consistent_def)
    have cur: "currentPlayer s = to_move (length ?h)"
      using assms playing by (simp add: consistent_def turn_ok_def)
    have cell: "board s ! nat r ! nat c = Some EMPTY"
      using board_get_on_board(1) [OF wf on_rc] empty by simp
    have fresh: "(r, c) \<notin> set (map cell_of ?h)"
    proof
      assume "(r, c) \<in> set (map cell_of ?h)"
      then obtain m where m: "m \<in> set ?h" "row m = r" "col m = c"
        by (auto simp: cell_of_def)
      from foldl_place_occupied [OF wf_board_emptyBoard on players_not_EMPTY [OF alt] m(1)]
      have "rebuilt ?h ! nat r ! nat c \<noteq> Some EMPTY"
        by (simp add: rebuilt_def m)
      with cell consistent_board [OF assms] show False
        by simp
    qed
    have on': "list_all move_on_board (?h @ [?m])"
      using on on_rc by (simp add: move_on_board_def)
    have dist': "distinct (map cell_of (?h @ [?m]))"
      using dist fresh by (simp add: cell_of_def)
    have alt': "map player (?h @ [?m]) = map to_move [0..<length (?h @ [?m])]"
      using alt cur by simp
    have rep': "replay emptyBoard (?h @ [?m]) = Inr (place (board s) ?m)"
      using rep board_set_place [OF wf, of ?m] on_rc
      by (simp add: replay_append move_on_board_def)
    have turn': "(if currentPlayer s = BLACK then WHITE else BLACK) = to_move (Suc (length ?h))"
      using cur by (simp add: to_move_def)
    show ?thesis
      using on' dist' alt' rep' turn' cur
      by (simp add: handleCellClick_accepts [OF wf playing empty] consistent_def
          wf_board_place [OF wf] turn_ok_def)
  qed (use assms in simp_all)
qed

lemma consistent_apply_op:
  assumes "consistent s"
  shows "consistent (apply_op s x)"
  using assms
  by (cases x)
    (simp_all add: consistent_handleCellClick consistent_handleUndo consistent_handlePauseResume
      handleNewGame_def consistent_initializeBoard)

lemma consistent_foldl:
  assumes "consistent s"
  shows "consistent (foldl apply_op s ops)"
  using assms by (induction ops arbitrary: s) (simp_all add: consistent_apply_op)

lemma consistent_play: "consistent (play ops)"
  by (simp add: play_def consistent_foldl consistent_initializeBoard)

section \<open>Properties of undo and of the reachable states\<close>

text \<open>
  C5. In every state whose history holds moves on the board: with a non-empty
  history \<open>handleUndo\<close> removes exactly the last move, sets the board to the
  remaining history replayed in order onto the all-empty board, sets the last
  move from the new last entry (none when the history becomes empty), gives the
  turn to the player of the undone move and sets the status to PLAYING whatever
  it was before; with an empty history it reports that there is nothing to undo
  and changes nothing.
\<close>

theorem handleUndo_effect:
  assumes "list_all move_on_board (moveHistory s)"
  shows "handleUndo s =
           (if moveHistory s = [] then (Rejected NothingToUndo, s)
            else (Accepted,
                  s\<lparr>moveHistory := butlast (moveHistory s),
                    board := rebuilt (butlast (moveHistory s)),
                    lastMove :=
                      (if butlast (moveHistory s) = [] then None
                       else Some (row (last (butlast (moveHistory s))),
                                  col (last (butlast (moveHistory s))))),
                    currentPlayer := player (last (moveHistory s)),
                    gameStatus := PLAYING\<rparr>))"
  using assms by (rule handleUndo_wf)

theorem handleUndo_effect_witness:
  "list_all move_on_board (moveHistory (play winGame)) \<and>
   gameStatus (play winGame) = BLACK_WIN \<and>
   last (moveHistory (play winGame)) = \<lparr>row = 7, col = 7, player = BLACK\<rparr> \<and>
   handleUndo (play winGame) =
     (Accepted,
      (play winGame)
        \<lparr>moveHistory := butlast (moveHistory (play winGame)),
         board := rebuilt (butlast (moveHistory (play winGame))),
         lastMove := Some (0, 3), currentPlayer := BLACK, gameStatus := PLAYING\<rparr>) \<and>
   snd (handleUndo (play winGame)) = play (butlast winGame)"
proof -
  have on: "list_all move_on_board (moveHistory (play winGame))"
    by code_simp
  have st: "gameStatus (play winGame) = BLACK_WIN"
    by code_simp
  have lst: "last (moveHistory (play winGame)) = \<lparr>row = 7, col = 7, player = BLACK\<rparr>"
    by code_simp
  have ne: "moveHistory (play winGame) \<noteq> []" "butlast (moveHistory (play winGame)) \<noteq> []"
    by code_simp+
  have prev: "last (butlast (moveHistory (play winGame))) = \<lparr>row = 0, col = 3, player = WHITE\<rparr>"
    by code_simp
  have same: "snd (handleUndo (play winGame)) = play (butlast winGame)"
    by code_simp
  from handleUndo_effect [OF on] on st lst ne prev same show ?thesis
    by simp
qed

text \<open>
  C8. In every state reached from \<open>initializeBoard\<close> by placements, undos, pause
  toggles and resets, replaying the move history in order onto the all-empty
  board (the rebuild of \<open>handleUndo\<close>) succeeds and gives exactly the board of
  the state, which the accepted placements built one stone at a time.
\<close>

theorem replay_matches_board:
  "replay emptyBoard (moveHistory (play ops)) = Inr (board (play ops))"
  using consistent_play [of ops] by (simp add: consistent_def)

text \<open>
  C4. In every state reached from \<open>initializeBoard\<close> by placements, undos, pause
  toggles and resets, the number of cells that are not EMPTY equals the length
  of the move history, and the number of BLACK stones is the number of WHITE
  stones or one more.
\<close>

theorem stone_counts:
  "stones (board (play ops)) = length (moveHistory (play ops)) \<and>
   (stones_of BLACK (board (play ops)) = stones_of WHITE (board (play ops)) \<or>
    stones_of BLACK (board (play ops)) = stones_of WHITE (board (play ops)) + 1)"
proof -
  let ?h = "moveHistory (play ops)"
  have c: "consistent (play ops)"
    by (rule consistent_play)
  then have on: "list_all move_on_board ?h" and dist: "distinct (map cell_of ?h)"
    and alt: "map player ?h = map to_move [0..<length ?h]"
    by (simp_all add: consistent_def)
  have b: "board (play ops) = rebuilt ?h"
    using c by (rule consistent_board)
  have "filter (\<lambda>m. Some (player m) \<noteq> Some EMPTY) ?h = ?h"
    using players_not_EMPTY [OF alt] by (simp add: filter_id_conv)
  with cell_count_rebuilt [where P = "\<lambda>v. v \<noteq> Some EMPTY", OF on dist]
  have total: "stones (rebuilt ?h) = length ?h"
    by (simp add: stones_def)
  have colour: "stones_of p (rebuilt ?h) = length (filter (\<lambda>i. to_move i = p) [0..<length ?h])"
    if "p \<noteq> EMPTY" for p
    using cell_count_rebuilt [where P = "\<lambda>v. v = Some p", OF on dist] that
      count_players [OF alt, of p]
    by (simp add: stones_of_def)
  have "stones_of BLACK (rebuilt ?h) = (length ?h + 1) div 2"
    and "stones_of WHITE (rebuilt ?h) = length ?h div 2"
    using colour [of BLACK] colour [of WHITE] count_to_move [of "length ?h"] by simp_all
  with total b show ?thesis
    by (simp only:) arith
qed

section \<open>Draw detection\<close>

lemma lastCellState_reached: "play (butlast drawGame) = lastCellState"
  by code_simp

text \<open>No sequence of operations ever reaches the status DRAW.\<close>

lemma draw_never_set: "gameStatus (play ops) \<noteq> DRAW"
  using consistent_play [of ops] by (simp add: consistent_def)

text \<open>
  C1. The claim is that the placement filling the last empty cell without a win
  sets the status to DRAW. The handler does not: \<open>checkDraw\<close> reads the board of
  the render, in which the clicked cell is still empty, so it answers false and
  the turn passes as after any other move. Here the state \<open>lastCellState\<close> is
  reached by 224 accepted placements with no five in a line; the click on the
  last empty cell \<open>(0, 0)\<close> is accepted, is no win, fills the board (225 stones,
  and \<open>checkDraw\<close> on the new board would answer true), and leaves the status
  PLAYING with WHITE to move.
\<close>

theorem draw_not_detected:
  "play (butlast drawGame) = lastCellState \<and>
   gameStatus lastCellState = PLAYING \<and>
   board_get (board lastCellState) 0 0 = Inr (Some EMPTY) \<and>
   stones (board lastCellState) = 224 \<and>
   checkWin (board lastCellState) 0 0 BLACK = Inr False \<and>
   checkDraw (board lastCellState) = Inr False \<and>
   fst (handleCellClick lastCellState 0 0) = Accepted \<and>
   stones (board (snd (handleCellClick lastCellState 0 0))) = 225 \<and>
   checkDraw (board (snd (handleCellClick lastCellState 0 0))) = Inr True \<and>
   gameStatus (snd (handleCellClick lastCellState 0 0)) = PLAYING \<and>
   currentPlayer (snd (handleCellClick lastCellState 0 0)) = WHITE"
proof -
  have "gameStatus lastCellState = PLAYING"
    by code_simp
  moreover have "board_get (board lastCellState) 0 0 = Inr (Some EMPTY)"
    by code_simp
  moreover have "stones (board lastCellState) = 224"
    by code_simp
  moreover have "checkWin (board lastCellState) 0 0 BLACK = Inr False"
    by code_simp
  moreover have "checkDraw (board lastCellState) = Inr False"
    by code_simp
  moreover have "fst (handleCellClick lastCellState 0 0) = Accepted"
    by code_simp
  moreover have "stones (board (snd (handleCellClick lastCellState 0 0))) = 225"
    by code_simp
  moreover have "checkDraw (board (snd (handleCellClick lastCellState 0 0))) = Inr True"
    by code_simp
  moreover have "gameStatus (snd (handleCellClick lastCellState 0 0)) = PLAYING"
    by code_simp
  moreover have "currentPlayer (snd (handleCellClick lastCellState 0 0)) = WHITE"
    by code_simp
  ultimately show ?thesis
    using lastCellState_reached by simp
qed

end
